theory Spec2Isabelle
  imports Main "HOL-Library.Multiset"
begin

section \<open>Data model of bthreads.ts\<close>

text \<open>
  The scheduler is generic in its \<open>Event\<close> type. What it does with an event is compare it
  (\<open>post.includes\<close>), hand it to the user predicates, and test it for truthiness
  (\<open>if (selectedEvent)\<close>). The values below are the JavaScript values the repository's
  tests and examples use as events: strings, numbers (integers here), booleans, and
  objects, which \<open>includes\<close> compares by reference (the number is the object's identity).
\<close>

datatype event = EStr string | ENum int | EBool bool | EObj nat

text \<open>JavaScript truthiness, as tested by \<open>if (selectedEvent)\<close>.\<close>

fun truthy :: "event \<Rightarrow> bool" where
  "truthy (EStr s) = (s \<noteq> [])"
| "truthy (ENum n) = (n \<noteq> 0)"
| "truthy (EBool b) = b"
| "truthy (EObj r) = True"

type_synonym error = string

text \<open>\<open>Result<Event>\<close> of Effection: \<open>{ok: true, value}\<close> or \<open>{ok: false, error}\<close>.\<close>

datatype result = Ok event | Err error

text \<open>
  An operation thunk \<open>() => Operation<Event>\<close> and the task that runs it are opaque to the
  scheduler; they are labels here. When and how an operation finishes is decided by the
  environment (see \<open>env_action\<close> below).
\<close>

type_synonym op = nat
type_synonym task = nat

datatype exec = ENone | Pending op | Running task | Done result

record sync =
  post :: "event list"
  wait :: "event \<Rightarrow> bool"
  halt :: "event \<Rightarrow> bool"
  exec :: exec

text \<open>
  What a call of \<open>next\<close> or \<open>throw\<close> on a generator gives: \<open>{done: false, value}\<close>,
  \<open>{done: true}\<close>, or an exception that leaves the call.
\<close>

datatype 'a iter = Yield 'a | Return | Raise error

text \<open>
  A suspended generator \<open>Generator<Sync<Event>, void, Event>\<close>: how it answers
  \<open>next(event)\<close> and \<open>throw(error)\<close>, each answer carrying the generator's next state.
  Every \<open>yield\<close> gives a sync spec of its own, as \<open>sync({...})\<close> makes one at each call;
  what a body does besides yielding is outside the scheduler.
\<close>

datatype proc =
  Proc (gnext: "event \<Rightarrow> (sync \<times> proc) iter") (gthrow: "error \<Rightarrow> (sync \<times> proc) iter")

text \<open>
  A generator that has completed (or the fresh \<open>(function* () {})()\<close>): \<open>next\<close> answers
  \<open>{done: true}\<close> and \<open>throw(e)\<close> throws \<open>e\<close> back.
\<close>

definition empty_proc :: proc where
  "empty_proc = Proc (\<lambda>_. Return) (\<lambda>e. Raise e)"

record thread =
  name :: string
  sync :: sync
  proc :: proc
  prio :: int

record sync_options =
  opt_post :: "event list option"
  opt_wait :: "(event \<Rightarrow> bool) option"
  opt_halt :: "(event \<Rightarrow> bool) option"
  opt_exec :: "op option"

definition no_options :: sync_options where
  "no_options = \<lparr>opt_post = None, opt_wait = None, opt_halt = None, opt_exec = None\<rparr>"

definition makeSyncSpec :: "sync_options \<Rightarrow> sync" where
  "makeSyncSpec opts =
     \<lparr>post = (case opt_post opts of None \<Rightarrow> [] | Some p \<Rightarrow> p),
      wait = (case opt_wait opts of None \<Rightarrow> (\<lambda>_. False) | Some w \<Rightarrow> w),
      halt = (case opt_halt opts of None \<Rightarrow> (\<lambda>_. False) | Some h \<Rightarrow> h),
      exec = (case opt_exec opts of Some f \<Rightarrow> Pending f | None \<Rightarrow> ENone)\<rparr>"

text \<open>
  A behavior \<open>() => Generator\<close> is called once, and the generator's first \<open>next()\<close> is taken
  at once, so a behavior is given by the answer to that first \<open>next()\<close>.
\<close>

type_synonym behavior = "(sync \<times> proc) iter"

record thread_options =
  opt_name :: string
  opt_prio :: "int option"
  opt_behavior :: behavior

definition createEmptyThread :: "string \<Rightarrow> thread" where
  "createEmptyThread n =
     \<lparr>name = n, sync = makeSyncSpec no_options, proc = empty_proc, prio = 0\<rparr>"

text \<open>\<open>makeThread\<close>; an exception of the first \<open>next()\<close> leaves the call (\<open>Inl\<close>).\<close>

definition makeThread :: "thread_options \<Rightarrow> error + thread" where
  "makeThread opts =
     (case opt_behavior opts of
        Raise x \<Rightarrow> Inl x
      | Return \<Rightarrow> Inr (createEmptyThread (opt_name opts))
      | Yield (s, p) \<Rightarrow>
          Inr \<lparr>name = opt_name opts, sync = s, proc = p,
               prio = (case opt_prio opts of None \<Rightarrow> 1 | Some q \<Rightarrow> q)\<rparr>)"

section \<open>Effects\<close>

text \<open>
  The calls the scheduler makes on objects it does not own, and the two console lines of
  the selection phase, in the order they happen. Threads are named by their \<open>name\<close>.
\<close>

datatype effect =
    Spawn string
  | Halt string
  | Next string event
  | Throw string error
  | Selected event
  | NoEventSelected

text \<open>\<open>startThreadOperationIfNecessary\<close>: a pending operation is spawned and marked running.\<close>

definition startThreadOperationIfNecessary :: "thread \<Rightarrow> thread \<times> effect list" where
  "startThreadOperationIfNecessary t =
     (case exec (sync t) of
        Pending f \<Rightarrow> (t\<lparr>sync := (sync t)\<lparr>exec := Running f\<rparr>\<rparr>, [Spawn (name t)])
      | _ \<Rightarrow> (t, []))"

section \<open>The turn: \<open>schedule\<close>\<close>

text \<open>
  Every loop of \<open>schedule\<close> returns the exception that left it, if any, the thread set as
  the loop left it (the set is mutated in place, so it is what the caller sees also
  after an exception), and the effects it made.
\<close>

text \<open>
  The first loop, over the threads whose operation is done. The flag is \<open>didWork\<close>.
  After an exception the generator has completed; the thread is still in the set.
\<close>

fun harvest :: "thread list \<Rightarrow> (error + bool) \<times> thread list \<times> effect list" where
  "harvest [] = (Inr False, [], [])"
| "harvest (t # ts) =
     (case exec (sync t) of
        Done (Ok v) \<Rightarrow>
          (case harvest ts of (out, ts', tr) \<Rightarrow>
             (case out of Inl x \<Rightarrow> Inl x | Inr _ \<Rightarrow> Inr True,
              t\<lparr>sync := (sync t)\<lparr>exec := ENone, post := [v]\<rparr>\<rparr> # ts', tr))
      | Done (Err e) \<Rightarrow>
          (case gthrow (proc t) e of
             Raise x \<Rightarrow> (Inl x, t\<lparr>proc := empty_proc\<rparr> # ts, [Throw (name t) e])
           | Return \<Rightarrow>
               (case harvest ts of (out, ts', tr) \<Rightarrow>
                  (case out of Inl x \<Rightarrow> Inl x | Inr _ \<Rightarrow> Inr True,
                   ts', Throw (name t) e # tr))
           | Yield (s, p) \<Rightarrow>
               (case startThreadOperationIfNecessary (t\<lparr>sync := s, proc := p\<rparr>) of
                  (t', sp) \<Rightarrow>
                    (case harvest ts of (out, ts', tr) \<Rightarrow>
                       (case out of Inl x \<Rightarrow> Inl x | Inr _ \<Rightarrow> Inr True,
                        t' # ts', Throw (name t) e # sp @ tr))))
      | _ \<Rightarrow> (case harvest ts of (out, ts', tr) \<Rightarrow> (out, t # ts', tr)))"

text \<open>
  The selection: the threads sorted by descending priority (the sort of an array is
  stable), their posts in order, and the first one that no thread halts.
\<close>

definition by_prio :: "thread list \<Rightarrow> thread list" where
  "by_prio ts = sort_key (\<lambda>t. - prio t) ts"

definition candidates :: "thread list \<Rightarrow> event list" where
  "candidates ts = concat (map (\<lambda>x. post (sync x)) (by_prio ts))"

definition halted :: "thread list \<Rightarrow> event \<Rightarrow> bool" where
  "halted ts x = list_ex (\<lambda>y. halt (sync y) x) ts"

definition find_event :: "thread list \<Rightarrow> event option" where
  "find_event ts = find (\<lambda>x. \<not> halted ts x) (candidates ts)"

text \<open>What \<open>if (selectedEvent)\<close> lets through.\<close>

definition selectedEvent :: "thread list \<Rightarrow> event option" where
  "selectedEvent ts =
     (case find_event ts of None \<Rightarrow> None | Some e \<Rightarrow> if truthy e then Some e else None)"

definition affected :: "event \<Rightarrow> thread \<Rightarrow> bool" where
  "affected e t = (e \<in> set (post (sync t)) \<or> wait (sync t) e)"

text \<open>\<open>yield* exec.task.halt(); thread.sync.exec = { state: "none" }\<close>, for a running operation.\<close>

definition cancel :: "thread \<Rightarrow> thread \<times> effect list" where
  "cancel t =
     (case exec (sync t) of
        Running k \<Rightarrow> (t\<lparr>sync := (sync t)\<lparr>exec := ENone\<rparr>\<rparr>, [Halt (name t)])
      | _ \<Rightarrow> (t, []))"

text \<open>
  The second loop, over the threads affected by the selected event. The loop is
  suspended while it waits in \<open>exec.task.halt()\<close>, and the operations of the other
  threads go on meanwhile: an operation that was running when the loop began can be
  done when the loop reaches its thread, and the loop reads \<open>thread.sync.exec\<close> only
  then. The list \<open>fin\<close> says, thread by thread in the order of the loop, with what
  result (if any) the running operation of the thread has finished by the time the
  loop reaches it; this can only be once the loop has halted a task (the flag \<open>h\<close>).
  Past the end of the list no operation finishes.
\<close>

definition finish_op :: "result \<Rightarrow> thread \<Rightarrow> thread" where
  "finish_op r t =
     (case exec (sync t) of
        Running k \<Rightarrow> t\<lparr>sync := (sync t)\<lparr>exec := Done r\<rparr>\<rparr>
      | _ \<Rightarrow> t)"

definition first_of :: "result option list \<Rightarrow> result option" where
  "first_of fin = (case fin of [] \<Rightarrow> None | f # _ \<Rightarrow> f)"

text \<open>The thread as the loop finds it.\<close>

definition visit :: "bool \<Rightarrow> result option list \<Rightarrow> thread \<Rightarrow> thread" where
  "visit h fin t = (case first_of fin of Some r \<Rightarrow> if h then finish_op r t else t | None \<Rightarrow> t)"

fun advance ::
  "event \<Rightarrow> bool \<Rightarrow> result option list \<Rightarrow> thread list \<Rightarrow>
     error option \<times> thread list \<times> effect list" where
  "advance e h fin [] = (None, [], [])"
| "advance e h fin (t0 # ts) =
     (if affected e (visit h fin t0) then
        (case cancel (visit h fin t0) of (t1, hl) \<Rightarrow>
           (case gnext (proc t1) e of
              Raise x \<Rightarrow> (Some x, t1\<lparr>proc := empty_proc\<rparr> # ts, hl @ [Next (name t0) e])
            | Return \<Rightarrow>
                (case advance e (h \<or> hl \<noteq> []) (tl fin) ts of (out, ts', tr) \<Rightarrow>
                   (out, ts', hl @ Next (name t0) e # tr))
            | Yield (s, p) \<Rightarrow>
                (case startThreadOperationIfNecessary (t1\<lparr>sync := s, proc := p\<rparr>) of
                   (t', sp) \<Rightarrow>
                     (case advance e (h \<or> hl \<noteq> []) (tl fin) ts of (out, ts', tr) \<Rightarrow>
                        (out, t' # ts', hl @ Next (name t0) e # sp @ tr)))))
      else (case advance e h (tl fin) ts of (out, ts', tr) \<Rightarrow>
              (out, visit h fin t0 # ts', tr)))"

text \<open>
  \<open>schedule\<close>. No operation finishes between the first loop and the second: the
  selection does not suspend.
\<close>

definition schedule ::
  "result option list \<Rightarrow> thread list \<Rightarrow> (error + bool) \<times> thread list \<times> effect list" where
  "schedule fin ts =
     (case harvest ts of
        (Inl x, ts1, tr1) \<Rightarrow> (Inl x, ts1, tr1)
      | (Inr didWork, ts1, tr1) \<Rightarrow>
          (case selectedEvent ts1 of
             Some e \<Rightarrow>
               (case advance e False fin ts1 of
                  (Some x, ts2, tr2) \<Rightarrow> (Inl x, ts2, tr1 @ Selected e # tr2)
                | (None, ts2, tr2) \<Rightarrow> (Inr True, ts2, tr1 @ Selected e # tr2))
           | None \<Rightarrow> (Inr didWork, ts1, tr1 @ [NoEventSelected])))"

section \<open>Admission and the scheduling loop: \<open>behavioralThreadSystem\<close>\<close>

text \<open>
  The sets \<open>activeThreads\<close> and \<open>pendingThreads\<close> are lists in insertion order, which is
  the order a \<open>Set\<close> iterates in. Every admitted thread is a new object, so adding it to
  a set appends it.
\<close>

record system =
  active :: "thread list"
  pending :: "thread list"
  trace :: "effect list"

text \<open>
  The function handed to the body: \<open>makeThread\<close> with the default priority, start of the
  pending operation, \<open>pendingThreads.add\<close>. (The notification it then sends is what
  \<open>Fires\<close> below stands for.)
\<close>

definition addBehavioralThread ::
  "string \<Rightarrow> behavior \<Rightarrow> thread list \<Rightarrow> (error + unit) \<times> thread list \<times> effect list" where
  "addBehavioralThread n b pend =
     (case makeThread \<lparr>opt_name = n, opt_prio = None, opt_behavior = b\<rparr> of
        Inl x \<Rightarrow> (Inl x, pend, [])
      | Inr t \<Rightarrow>
          (case startThreadOperationIfNecessary t of
             (t', sp) \<Rightarrow> (Inr (), pend @ [t'], sp)))"

text \<open>
  What happens outside the scheduler between two turns: the operation of a thread
  finishes (\<open>markExecutionAsDone\<close> or \<open>markExecutionAsFailed\<close>, as \<open>finish_op\<close> above; the
  thread is given by its position in \<open>active @ pending\<close>), or some task calls the
  admission function.
\<close>

datatype env_action = Finish nat result | Admit string behavior

fun env_step :: "env_action \<Rightarrow> system \<Rightarrow> system" where
  "env_step (Finish i r) st =
     (if i < length (active st)
      then st\<lparr>active := (active st)[i := finish_op r (active st ! i)]\<rparr>
      else if i - length (active st) < length (pending st)
      then st\<lparr>pending := (pending st)[i - length (active st) :=
                 finish_op r (pending st ! (i - length (active st)))]\<rparr>
      else st)"
| "env_step (Admit n b) st =
     (case addBehavioralThread n b (pending st) of
        (_, pend, sp) \<Rightarrow> st\<lparr>pending := pend, trace := trace st @ sp\<rparr>)"

definition env_steps :: "env_action list \<Rightarrow> system \<Rightarrow> system" where
  "env_steps acts st = fold env_step acts st"

text \<open>
  The inner \<open>for (;;)\<close>: turns until one did no work. The environment is a list, one
  entry per turn: what happened outside since the turn before, and which operations
  finish while the turn waits in a halt (the list \<open>fin\<close> of \<open>advance\<close>); past its end
  nothing happens. An operation of a thread that the second loop has left behind, if
  it finishes during the turn, is among the things that happened before the next
  turn. The first argument bounds the number of turns: \<open>None\<close> is a loop that has not
  ended within the bound.
\<close>

type_synonym turn_env = "env_action list \<times> result option list"

definition before_turn :: "turn_env list \<Rightarrow> env_action list" where
  "before_turn env = (case env of [] \<Rightarrow> [] | (acts, _) # _ \<Rightarrow> acts)"

definition during_turn :: "turn_env list \<Rightarrow> result option list" where
  "during_turn env = (case env of [] \<Rightarrow> [] | (_, fin) # _ \<Rightarrow> fin)"

fun process ::
  "nat \<Rightarrow> turn_env list \<Rightarrow> system \<Rightarrow> ((error + unit) \<times> system \<times> turn_env list) option" where
  "process 0 env st = None"
| "process (Suc m) env st =
     (let st1 = env_steps (before_turn env) st;
          env' = tl env
      in case schedule (during_turn env) (active st1) of
           (Inl x, ts, tr) \<Rightarrow> Some (Inl x, st1\<lparr>active := ts, trace := trace st1 @ tr\<rparr>, env')
         | (Inr True, ts, tr) \<Rightarrow> process m env' (st1\<lparr>active := ts, trace := trace st1 @ tr\<rparr>)
         | (Inr False, ts, tr) \<Rightarrow>
             Some (Inr (), st1\<lparr>active := ts, trace := trace st1 @ tr\<rparr>, env'))"

text \<open>\<open>activeThreads = new Set([...activeThreads, ...pendingThreads]); pendingThreads.clear()\<close>\<close>

definition admit_pending :: "system \<Rightarrow> system" where
  "admit_pending st =
     (if pending st \<noteq> [] then st\<lparr>active := active st @ pending st, pending := []\<rparr> else st)"

text \<open>
  What \<open>pendingThreadNotifications.next()\<close> does: a notification arrives (after the given
  things happened outside), the channel is closed, or the call fails.
\<close>

datatype wake = Fires "env_action list" | Closed | Fails error

text \<open>
  The outer \<open>for (;;)\<close>. The result is the exception that left the loop, if any, and
  the state the loop left. With no entry left in the list of wake-ups the notification
  never comes and the loop does not end.
\<close>

fun scheduler ::
  "nat \<Rightarrow> nat \<Rightarrow> turn_env list \<Rightarrow> wake list \<Rightarrow> system \<Rightarrow>
     (error option \<times> system) option" where
  "scheduler 0 m env ws st = None"
| "scheduler (Suc n) m env ws st =
     (case process m env (admit_pending st) of
        None \<Rightarrow> None
      | Some (Inl x, st2, env') \<Rightarrow> Some (Some x, st2)
      | Some (Inr _, st2, env') \<Rightarrow>
          if pending st2 = [] then Some (None, st2)
          else (case ws of
                  [] \<Rightarrow> None
                | Fires acts # ws' \<Rightarrow> scheduler n m env' ws' (env_steps acts st2)
                | Closed # ws' \<Rightarrow> Some (None, st2)
                | Fails x # ws' \<Rightarrow> Some (Some x, st2)))"

text \<open>
  The body given to \<open>behavioralThreadSystem\<close>, as far as the system sees it: the
  admissions it makes, then its return value or its exception. An exception of an
  admission is not caught by the body.
\<close>

datatype 'v body = BReturn 'v | BThrow error | BAdmit string behavior "'v body"

fun run_body ::
  "'v body \<Rightarrow> thread list \<Rightarrow> effect list \<Rightarrow> (error + 'v) \<times> thread list \<times> effect list" where
  "run_body (BReturn v) pend tr = (Inr v, pend, tr)"
| "run_body (BThrow x) pend tr = (Inl x, pend, tr)"
| "run_body (BAdmit n b k) pend tr =
     (case addBehavioralThread n b pend of
        (Inl x, pend', sp) \<Rightarrow> (Inl x, pend', tr @ sp)
      | (Inr _, pend', sp) \<Rightarrow> run_body k pend' (tr @ sp))"

text \<open>
  \<open>behavioralThreadSystem\<close>: an exception of the body leaves the call (\<open>Inl\<close>); an
  exception of the scheduling loop is caught and logged (\<open>console.error("Scheduler error", e)\<close>,
  the second component), and the body's result is returned with the state at return.
\<close>

definition behavioralThreadSystem ::
  "nat \<Rightarrow> nat \<Rightarrow> turn_env list \<Rightarrow> wake list \<Rightarrow> 'v body \<Rightarrow>
     (error + 'v \<times> error option \<times> system) option" where
  "behavioralThreadSystem n m env ws b =
     (case run_body b [] [] of
        (Inl x, pend, tr) \<Rightarrow> Some (Inl x)
      | (Inr v, pend, tr) \<Rightarrow>
          (case scheduler n m env ws \<lparr>active = [], pending = pend, trace = tr\<rparr> of
             None \<Rightarrow> None
           | Some (err, st) \<Rightarrow> Some (Inr (v, err, st))))"

section \<open>Notions used in the statements\<close>

text \<open>\<open>exec.state === "done"\<close>\<close>

definition is_done :: "exec \<Rightarrow> bool" where
  "is_done x = (case x of Done _ \<Rightarrow> True | _ \<Rightarrow> False)"

text \<open>Every event a list of effects selects or hands to a generator is truthy.\<close>

definition truthy_only :: "effect list \<Rightarrow> bool" where
  "truthy_only tr =
     (\<forall>x\<in>set tr. case x of Selected e \<Rightarrow> truthy e | Next k e \<Rightarrow> truthy e | _ \<Rightarrow> True)"

text \<open>The calls of \<open>next\<close> in a list of effects: whose generator, and with what event.\<close>

fun nexts :: "effect list \<Rightarrow> (string \<times> event) list" where
  "nexts [] = []"
| "nexts (Next k e # tr) = (k, e) # nexts tr"
| "nexts (x # tr) = nexts tr"

text \<open>The calls the second loop makes on a thread: the halt of its task, the \<open>next\<close>.\<close>

fun is_call :: "effect \<Rightarrow> bool" where
  "is_call (Halt k) = True"
| "is_call (Next k e) = True"
| "is_call x = False"

fun is_halt :: "effect \<Rightarrow> bool" where
  "is_halt (Halt k) = True"
| "is_halt x = False"

definition has_halt :: "effect list \<Rightarrow> bool" where
  "has_halt tr = list_ex is_halt tr"

text \<open>The calls of \<open>throw\<close> in a list of effects: whose generator, and with what error.\<close>

fun throws :: "effect list \<Rightarrow> (string \<times> error) list" where
  "throws [] = []"
| "throws (Throw k x # tr) = (k, x) # throws tr"
| "throws (y # tr) = throws tr"

text \<open>The \<open>throw\<close> a thread is due at the start of a turn: its operation has failed.\<close>

definition thrown :: "thread \<Rightarrow> (string \<times> error) list" where
  "thrown t = (case exec (sync t) of Done (Err x) \<Rightarrow> [(name t, x)] | _ \<Rightarrow> [])"

text \<open>\<open>exec.state === "running"\<close>\<close>

definition is_running :: "exec \<Rightarrow> bool" where
  "is_running x = (case x of Running _ \<Rightarrow> True | _ \<Rightarrow> False)"

text \<open>
  The threads as the second loop finds them in a turn that no exception leaves: an
  operation can have finished only after the loop has halted a task.
\<close>

fun found :: "event \<Rightarrow> bool \<Rightarrow> result option list \<Rightarrow> thread list \<Rightarrow> thread list" where
  "found e h fin [] = []"
| "found e h fin (t0 # ts) =
     visit h fin t0 #
     found e (h \<or> (affected e t0 \<and> snd (cancel (visit h fin t0)) \<noteq> [])) (tl fin) ts"

text \<open>
  What the claim says the second loop does with one thread, as it finds it: the calls
  it makes, and what it leaves of the thread in the set.
\<close>

definition step_calls :: "event \<Rightarrow> thread \<Rightarrow> effect list" where
  "step_calls e t = (if affected e t then snd (cancel t) @ [Next (name t) e] else [])"

definition step_threads :: "event \<Rightarrow> thread \<Rightarrow> thread list" where
  "step_threads e t =
     (if affected e t then
        (case gnext (proc t) e of
           Yield (s, p) \<Rightarrow>
             [fst (startThreadOperationIfNecessary ((fst (cancel t))\<lparr>sync := s, proc := p\<rparr>))]
         | _ \<Rightarrow> [])
      else [t])"

section \<open>Example threads\<close>

text \<open>Sync specs as \<open>sync({post: xs})\<close>, \<open>sync({wait: e => e === x})\<close> and \<open>sync({halt: e => e === x})\<close> make them.\<close>

definition posting :: "event list \<Rightarrow> sync" where
  "posting xs = makeSyncSpec (no_options\<lparr>opt_post := Some xs\<rparr>)"

definition waiting :: "event \<Rightarrow> sync" where
  "waiting x = makeSyncSpec (no_options\<lparr>opt_wait := Some (\<lambda>e. e = x)\<rparr>)"

definition halting :: "event \<Rightarrow> sync" where
  "halting x = makeSyncSpec (no_options\<lparr>opt_halt := Some (\<lambda>e. e = x)\<rparr>)"

text \<open>
  A body at its last \<open>yield\<close> with no handler around it is \<open>empty_proc\<close>. With
  \<open>try { yield ... } catch {}\<close> around its last \<open>yield\<close>, it ends on \<open>throw\<close> as well:
\<close>

definition catching :: proc where
  "catching = Proc (\<lambda>_. Return) (\<lambda>_. Return)"

text \<open>A body that throws once it is resumed.\<close>

definition throwing :: "error \<Rightarrow> proc" where
  "throwing x = Proc (\<lambda>_. Raise x) (\<lambda>e. Raise e)"

text \<open>A thread that posts \<open>"e1"\<close> and whose operation has finished with the value \<open>"v"\<close>.\<close>

definition worker_done :: thread where
  "worker_done =
     \<lparr>name = ''worker'', sync = (posting [EStr ''e1''])\<lparr>exec := Done (Ok (EStr ''v''))\<rparr>,
      proc = empty_proc, prio = 1\<rparr>"

definition producer :: thread where
  "producer = \<lparr>name = ''producer'', sync = posting [EStr ''e1''], proc = empty_proc, prio = 1\<rparr>"

definition consumer :: thread where
  "consumer = \<lparr>name = ''consumer'', sync = waiting (EStr ''e1''), proc = empty_proc, prio = 1\<rparr>"

text \<open>Three threads for the selection: priorities 1, 2 and 1; the third halts \<open>"hi1"\<close>.\<close>

definition lo :: thread where
  "lo = \<lparr>name = ''lo'', sync = posting [EStr ''lo1''], proc = empty_proc, prio = 1\<rparr>"

definition hi :: thread where
  "hi = \<lparr>name = ''hi'', sync = posting [EStr ''hi1'', EStr ''hi2''], proc = empty_proc, prio = 2\<rparr>"

definition blk :: thread where
  "blk = \<lparr>name = ''blk'', sync = halting (EStr ''hi1''), proc = empty_proc, prio = 1\<rparr>"

text \<open>
  A thread that halts \<open>"e1"\<close>; and the same with an operation that has failed and a body
  that catches the error and ends.
\<close>

definition blocker :: thread where
  "blocker = \<lparr>name = ''blocker'', sync = halting (EStr ''e1''), proc = empty_proc, prio = 1\<rparr>"

definition blocker_failed :: thread where
  "blocker_failed =
     \<lparr>name = ''blocker'', sync = (halting (EStr ''e1''))\<lparr>exec := Done (Err ''boom'')\<rparr>,
      proc = catching, prio = 1\<rparr>"

text \<open>
  Two threads that wait for \<open>"e1"\<close> while their operations run. The first posts
  \<open>"ack"\<close> once it is resumed; the body of the second ends.
\<close>

definition worker_one :: thread where
  "worker_one =
     \<lparr>name = ''w1'', sync = (waiting (EStr ''e1''))\<lparr>exec := Running 1\<rparr>,
      proc = Proc (\<lambda>_. Yield (posting [EStr ''ack''], empty_proc)) (\<lambda>e. Raise e), prio = 1\<rparr>"

definition worker_two :: thread where
  "worker_two =
     \<lparr>name = ''w2'', sync = (waiting (EStr ''e1''))\<lparr>exec := Running 2\<rparr>,
      proc = empty_proc, prio = 1\<rparr>"

text \<open>
  A thread whose operation has failed, with a body that catches the error and then
  waits for \<open>"e1"\<close>: \<open>try { yield sync({exec}) } catch { yield sync({wait: e => e === "e1"}) }\<close>.
\<close>

definition recoverer :: thread where
  "recoverer =
     \<lparr>name = ''recoverer'', sync = (makeSyncSpec no_options)\<lparr>exec := Done (Err ''boom'')\<rparr>,
      proc = Proc (\<lambda>_. Return) (\<lambda>_. Yield (waiting (EStr ''e1''), empty_proc)), prio = 1\<rparr>"

text \<open>A thread that posts \<open>"e1"\<close> and throws when it is resumed.\<close>

definition thrower :: thread where
  "thrower = \<lparr>name = ''thrower'', sync = posting [EStr ''e1''], proc = throwing ''boom'', prio = 1\<rparr>"



text \<open>
  The two threads of the example in the source file. The worker:
  \<open>yield sync({wait: (e) => e === "timeout", exec: function* () { yield* sleep(2000); return "completed" }})\<close>;
  the timer: \<open>yield sync({exec: function* () { yield* sleep(1000); return "timeout" }})\<close>.
  Neither body has a handler around its \<open>yield\<close>, and each ends when resumed.
\<close>

definition sleeper :: behavior where
  "sleeper = Yield (makeSyncSpec (no_options\<lparr>opt_wait := Some (\<lambda>e. e = EStr ''timeout''),
                                              opt_exec := Some 0\<rparr>), empty_proc)"

definition timer :: behavior where
  "timer = Yield (makeSyncSpec (no_options\<lparr>opt_exec := Some 1\<rparr>), empty_proc)"

text \<open>A thread that posts the empty string.\<close>

definition quiet :: thread where
  "quiet = \<lparr>name = ''quiet'', sync = posting [EStr ''''], proc = empty_proc, prio = 1\<rparr>"

lemmas sync_defs =
  posting_def waiting_def halting_def makeSyncSpec_def no_options_def empty_proc_def

lemmas turn_defs =
  schedule_def selectedEvent_def find_event_def candidates_def by_prio_def halted_def
  affected_def cancel_def startThreadOperationIfNecessary_def visit_def first_of_def
  finish_op_def

lemmas loop_defs =
  behavioralThreadSystem_def addBehavioralThread_def makeThread_def admit_pending_def
  env_steps_def before_turn_def during_turn_def Let_def createEmptyThread_def

section \<open>One thread in the loops of a turn\<close>


lemma start_effects: "x \<in> set (snd (startThreadOperationIfNecessary t)) \<Longrightarrow> x = Spawn (name t)"
  by (simp add: startThreadOperationIfNecessary_def split: exec.splits)

lemma cancel_name [simp]: "name (fst (cancel t)) = name t"
  by (simp add: cancel_def split: exec.splits)

lemma cancel_proc [simp]: "proc (fst (cancel t)) = proc t"
  by (simp add: cancel_def split: exec.splits)

lemma cancel_effects:
  "snd (cancel t) = (case exec (sync t) of Running j \<Rightarrow> [Halt (name t)] | _ \<Rightarrow> [])"
  by (simp add: cancel_def split: exec.splits)

lemma finish_op_name [simp]: "name (finish_op r t) = name t"
  by (simp add: finish_op_def split: exec.splits)

lemma finish_op_proc [simp]: "proc (finish_op r t) = proc t"
  by (simp add: finish_op_def split: exec.splits)

lemma finish_op_affected [simp]: "affected e (finish_op r t) = affected e t"
  by (simp add: finish_op_def affected_def split: exec.splits)

lemma visit_name [simp]: "name (visit h fin t) = name t"
  by (simp add: visit_def split: option.splits)

lemma visit_proc [simp]: "proc (visit h fin t) = proc t"
  by (simp add: visit_def split: option.splits)

lemma visit_affected [simp]: "affected e (visit h fin t) = affected e t"
  by (simp add: visit_def split: option.splits)

lemma visit_False [simp]: "visit False fin t = t"
  by (simp add: visit_def split: option.splits)

lemma visit_cases: "visit h fin t = t \<or> (\<exists>r. h \<and> first_of fin = Some r \<and> visit h fin t = finish_op r t)"
  by (simp add: visit_def split: option.splits)


text \<open>What the second loop does for its first thread.\<close>

lemma advance_Cons_cases:
  assumes "advance e h fin (t0 # ts) = (out, ts', tr)"
  shows "(\<not> affected e t0 \<and>
           (\<exists>ts1. advance e h (tl fin) ts = (out, ts1, tr) \<and> ts' = visit h fin t0 # ts1))
     \<or> (affected e t0 \<and> (\<exists>x. gnext (proc t0) e = Raise x \<and> out = Some x
           \<and> ts' = (fst (cancel (visit h fin t0)))\<lparr>proc := empty_proc\<rparr> # ts
           \<and> tr = snd (cancel (visit h fin t0)) @ [Next (name t0) e]))
     \<or> (affected e t0 \<and> gnext (proc t0) e = Return
           \<and> (\<exists>tr1. advance e (h \<or> snd (cancel (visit h fin t0)) \<noteq> []) (tl fin) ts = (out, ts', tr1)
                \<and> tr = snd (cancel (visit h fin t0)) @ Next (name t0) e # tr1))
     \<or> (affected e t0 \<and> (\<exists>s p ts1 tr1. gnext (proc t0) e = Yield (s, p)
           \<and> advance e (h \<or> snd (cancel (visit h fin t0)) \<noteq> []) (tl fin) ts = (out, ts1, tr1)
           \<and> ts' = fst (startThreadOperationIfNecessary
                          ((fst (cancel (visit h fin t0)))\<lparr>sync := s, proc := p\<rparr>)) # ts1
           \<and> tr = snd (cancel (visit h fin t0)) @ Next (name t0) e #
                snd (startThreadOperationIfNecessary
                       ((fst (cancel (visit h fin t0)))\<lparr>sync := s, proc := p\<rparr>)) @ tr1))"
proof (cases "affected e t0")
  case False
  obtain o1 ts1 tr1 where "advance e h (tl fin) ts = (o1, ts1, tr1)"
    by (cases "advance e h (tl fin) ts") auto
  with False assms show ?thesis by simp
next
  case True
  obtain t1 hl where c: "cancel (visit h fin t0) = (t1, hl)"
    by (cases "cancel (visit h fin t0)") auto
  then have p1: "proc t1 = proc t0" using cancel_proc [of "visit h fin t0"] by simp
  obtain o1 ts1 tr1 where a: "advance e (h \<or> hl \<noteq> []) (tl fin) ts = (o1, ts1, tr1)"
    by (cases "advance e (h \<or> hl \<noteq> []) (tl fin) ts") auto
  show ?thesis
  proof (cases "gnext (proc t0) e")
    case (Yield sp)
    obtain s p where sp: "sp = (s, p)" by (cases sp) auto
    obtain t2 sw where st: "startThreadOperationIfNecessary (t1\<lparr>sync := s, proc := p\<rparr>) = (t2, sw)"
      by (cases "startThreadOperationIfNecessary (t1\<lparr>sync := s, proc := p\<rparr>)") auto
    from True c p1 a Yield sp st assms show ?thesis by simp
  next
    case Return
    with True c p1 a assms show ?thesis by simp
  next
    case (Raise x)
    with True c p1 assms show ?thesis by simp
  qed
qed

lemma advance_effects:
  "advance e h fin ts = (out, ts', tr) \<Longrightarrow> x \<in> set tr \<Longrightarrow>
     \<exists>k\<in>name ` set ts. x = Next k e \<or> x = Halt k \<or> x = Spawn k"
proof (induction ts arbitrary: h fin out ts' tr)
  case Nil
  then show ?case by simp
next
  case (Cons t ts)
  have c: "x \<in> set (snd (cancel (visit h fin t))) \<Longrightarrow> x = Halt (name t)"
    by (auto simp: cancel_effects split: exec.splits)
  have s: "\<And>s p. x \<in> set (snd (startThreadOperationIfNecessary
             ((fst (cancel (visit h fin t)))\<lparr>sync := s, proc := p\<rparr>))) \<Longrightarrow> x = Spawn (name t)"
    using start_effects [of x] by fastforce
  from advance_Cons_cases [OF Cons.prems(1)] show ?case
  proof (elim disjE conjE exE)
    fix ts1 assume "advance e h (tl fin) ts = (out, ts1, tr)"
    from Cons.IH [OF this Cons.prems(2)] show ?thesis by auto
  next
    fix x' assume "tr = snd (cancel (visit h fin t)) @ [Next (name t) e]"
    with Cons.prems(2) c show ?thesis by auto
  next
    fix tr1 assume a: "advance e (h \<or> snd (cancel (visit h fin t)) \<noteq> []) (tl fin) ts = (out, ts', tr1)"
      and t: "tr = snd (cancel (visit h fin t)) @ Next (name t) e # tr1"
    from Cons.IH [OF a] t Cons.prems(2) c show ?thesis by auto
  next
    fix s' p ts1 tr1
    assume a: "advance e (h \<or> snd (cancel (visit h fin t)) \<noteq> []) (tl fin) ts = (out, ts1, tr1)"
      and t: "tr = snd (cancel (visit h fin t)) @ Next (name t) e #
                snd (startThreadOperationIfNecessary
                       ((fst (cancel (visit h fin t)))\<lparr>sync := s', proc := p\<rparr>)) @ tr1"
    from Cons.IH [OF a] t Cons.prems(2) c s show ?thesis by auto
  qed
qed

section \<open>The loops of a turn\<close>

lemma harvest_append:
  "harvest (pre @ suf) =
     (case harvest pre of
        (Inl x, pre', trp) \<Rightarrow> (Inl x, pre' @ suf, trp)
      | (Inr w, pre', trp) \<Rightarrow>
          (case harvest suf of (out, suf', trs) \<Rightarrow>
             (case out of Inl x \<Rightarrow> Inl x | Inr w' \<Rightarrow> Inr (w \<or> w'), pre' @ suf', trp @ trs)))"
proof (induction pre)
  case Nil
  show ?case by (simp split: prod.splits sum.splits)
next
  case (Cons t pre)
  show ?case
    by (simp add: Cons split: prod.splits sum.splits exec.splits result.splits iter.splits)
qed

lemma harvest_effects:
  "harvest ts = (out, ts', tr) \<Longrightarrow> x \<in> set tr \<Longrightarrow>
     (\<exists>k e. x = Throw k e) \<or> (\<exists>k. x = Spawn k)"
proof (induction ts arbitrary: out ts' tr)
  case Nil
  then show ?case by simp
next
  case (Cons t ts)
  obtain o1 ts1 tr1 where h: "harvest ts = (o1, ts1, tr1)" by (cases "harvest ts") auto
  from Cons.prems h Cons.IH [OF h] show ?case
    by (auto simp: startThreadOperationIfNecessary_def
        split: exec.splits result.splits iter.splits prod.splits)
qed

lemma harvest_keeps:
  "harvest ts = (Inr w, ts', tr) \<Longrightarrow> t \<in> set ts \<Longrightarrow> \<not> is_done (exec (sync t)) \<Longrightarrow> t \<in> set ts'"
proof (induction ts arbitrary: w ts' tr)
  case Nil
  then show ?case by simp
next
  case (Cons a ts)
  obtain o1 ts1 tr1 where h: "harvest ts = (o1, ts1, tr1)" by (cases "harvest ts") auto
  from Cons.prems h Cons.IH [of _ ts1 tr1] show ?case
    by (cases o1) (auto simp: is_done_def split: exec.splits result.splits iter.splits prod.splits)
qed

section \<open>The selection\<close>

lemma find_first:
  "find P xs = Some x \<Longrightarrow> \<exists>pre suf. xs = pre @ x # suf \<and> P x \<and> (\<forall>y\<in>set pre. \<not> P y)"
proof (induction xs)
  case Nil
  then show ?case by simp
next
  case (Cons a xs)
  show ?case
  proof (cases "P a")
    case True
    with Cons.prems have "a = x" by simp
    with True have "a # xs = [] @ x # xs \<and> P x \<and> (\<forall>y\<in>set []. \<not> P y)" by simp
    then show ?thesis by blast
  next
    case False
    with Cons obtain pre suf where "xs = pre @ x # suf" "P x" "\<forall>y\<in>set pre. \<not> P y" by auto
    with False have "a # xs = (a # pre) @ x # suf \<and> P x \<and> (\<forall>y\<in>set (a # pre). \<not> P y)" by simp
    then show ?thesis by blast
  qed
qed

lemma halted_iff: "halted ts x = (\<exists>y\<in>set ts. halt (sync y) x)"
  by (simp add: halted_def list_ex_iff)

lemma by_prio_sorted: "sorted_wrt (\<lambda>a b. prio b \<le> prio a) (by_prio ts)"
proof -
  have "sorted (map (\<lambda>t. - prio t) (by_prio ts))"
    unfolding by_prio_def by (rule sorted_sort_key)
  then show ?thesis by (simp add: sorted_map)
qed

lemma by_prio_stable: "filter (\<lambda>t. prio t = p) (by_prio ts) = filter (\<lambda>t. prio t = p) ts"
proof -
  have "filter (\<lambda>t. - prio t = - p) (sort_key (\<lambda>t. - prio t) ts) = filter (\<lambda>t. - prio t = - p) ts"
    by (rule sort_key_stable)
  then show ?thesis by (simp add: by_prio_def)
qed

lemma selectedEvent_truthy: "selectedEvent ts = Some e \<Longrightarrow> truthy e"
  by (auto simp: selectedEvent_def split: option.splits if_splits)

lemma selectedEvent_first:
  assumes "selectedEvent ts = Some e"
  shows "\<exists>pre suf. candidates ts = pre @ e # suf \<and> (\<forall>x\<in>set pre. halted ts x) \<and> \<not> halted ts e"
proof -
  from assms have "find (\<lambda>x. \<not> halted ts x) (candidates ts) = Some e"
    by (auto simp: selectedEvent_def find_event_def split: option.splits if_splits)
  from find_first [OF this] show ?thesis by auto
qed

lemma selectedEvent_all_halted:
  "\<forall>x\<in>set (candidates ts). halted ts x \<Longrightarrow> selectedEvent ts = None"
  by (simp add: selectedEvent_def find_event_def find_None_iff [THEN iffD2])

section \<open>The turn as a whole\<close>

lemma schedule_effects:
  assumes "schedule fin ts = (out, ts', tr)" and "x \<in> set tr"
  shows "(\<exists>e. truthy e \<and> (x = Selected e \<or> (\<exists>k. x = Next k e))) \<or> x = NoEventSelected
     \<or> (\<exists>k e. x = Throw k e) \<or> (\<exists>k. x = Halt k) \<or> (\<exists>k. x = Spawn k)"
proof -
  obtain o1 ts1 tr1 where h: "harvest ts = (o1, ts1, tr1)" by (cases "harvest ts") auto
  show ?thesis
  proof (cases "selectedEvent ts1")
    case None
    with assms h harvest_effects [OF h, of x] show ?thesis
      by (auto simp: schedule_def split: sum.splits)
  next
    case (Some e)
    obtain o2 ts2 tr2 where a: "advance e False fin ts1 = (o2, ts2, tr2)"
      by (cases "advance e False fin ts1") auto
    from assms h Some a harvest_effects [OF h, of x] advance_effects [OF a, of x]
      selectedEvent_truthy [OF Some]
    show ?thesis
      by (auto simp: schedule_def split: sum.splits option.splits)
  qed
qed

lemma schedule_selected:
  assumes "schedule fin ts = (out, ts', tr)" and "Selected e \<in> set tr"
  shows "\<exists>w ts1 tr1 o2 tr2. harvest ts = (Inr w, ts1, tr1) \<and> selectedEvent ts1 = Some e
     \<and> advance e False fin ts1 = (o2, ts', tr2) \<and> tr = tr1 @ Selected e # tr2
     \<and> out = (case o2 of Some x \<Rightarrow> Inl x | None \<Rightarrow> Inr True)"
proof -
  obtain o1 ts1 tr1 where h: "harvest ts = (o1, ts1, tr1)" by (cases "harvest ts") auto
  have nh: "Selected e \<notin> set tr1" using harvest_effects [OF h, of "Selected e"] by auto
  show ?thesis
  proof (cases "selectedEvent ts1")
    case None
    with assms h nh show ?thesis by (auto simp: schedule_def split: sum.splits)
  next
    case (Some e')
    obtain o2 ts2 tr2 where a: "advance e' False fin ts1 = (o2, ts2, tr2)"
      by (cases "advance e' False fin ts1") auto
    have na: "Selected e \<notin> set tr2" using advance_effects [OF a, of "Selected e"] by auto
    from assms h Some a nh na show ?thesis
      by (auto simp: schedule_def split: sum.splits option.splits)
  qed
qed

section \<open>Invariants of the scheduling loop\<close>

lemma process_invariant:
  assumes "process m env st = Some (out, st', env')" and "I st"
    and env: "\<And>acts s. I s \<Longrightarrow> I (env_steps acts s)"
    and turn: "\<And>s fin o1 ts tr. I s \<Longrightarrow> schedule fin (active s) = (o1, ts, tr) \<Longrightarrow>
                 I (s\<lparr>active := ts, trace := trace s @ tr\<rparr>)"
  shows "I st'"
  using assms(1,2)
proof (induction m arbitrary: env st)
  case 0
  then show ?case by simp
next
  case (Suc m)
  define st1 where "st1 = env_steps (before_turn env) st"
  obtain o1 ts tr where s: "schedule (during_turn env) (active st1) = (o1, ts, tr)"
    by (cases "schedule (during_turn env) (active st1)") auto
  have i1: "I st1" unfolding st1_def using Suc.prems(2) by (rule env)
  have i2: "I (st1\<lparr>active := ts, trace := trace st1 @ tr\<rparr>)" using i1 s by (rule turn)
  show ?case
  proof (cases o1)
    case (Inl x)
    with Suc.prems(1) s i2 show ?thesis by (auto simp: st1_def Let_def)
  next
    case (Inr w)
    show ?thesis
    proof (cases w)
      case True
      with Inr Suc.prems(1) s
      have "process m (tl env) (st1\<lparr>active := ts, trace := trace st1 @ tr\<rparr>) = Some (out, st', env')"
        by (simp add: st1_def Let_def)
      from Suc.IH [OF this i2] show ?thesis .
    next
      case False
      with Inr Suc.prems(1) s i2 show ?thesis by (auto simp: st1_def Let_def)
    qed
  qed
qed

lemma scheduler_invariant:
  assumes "scheduler n m env ws st = Some (err, st')" and "I st"
    and env: "\<And>acts s. I s \<Longrightarrow> I (env_steps acts s)"
    and turn: "\<And>s fin o1 ts tr. I s \<Longrightarrow> schedule fin (active s) = (o1, ts, tr) \<Longrightarrow>
                 I (s\<lparr>active := ts, trace := trace s @ tr\<rparr>)"
    and admit: "\<And>s. I s \<Longrightarrow> I (admit_pending s)"
  shows "I st'"
  using assms(1,2)
proof (induction n arbitrary: env ws st)
  case 0
  then show ?case by simp
next
  case (Suc n)
  from Suc.prems(1) obtain o1 st2 env' where
    p: "process m env (admit_pending st) = Some (o1, st2, env')"
    by (auto split: option.splits)
  have i2: "I st2"
    using p admit [OF Suc.prems(2)] env turn by (rule process_invariant)
  show ?case
  proof (cases o1)
    case (Inl x)
    with Suc.prems(1) p i2 show ?thesis by auto
  next
    case (Inr u)
    show ?thesis
    proof (cases "pending st2 = []")
      case True
      with Inr Suc.prems(1) p i2 show ?thesis by auto
    next
      case False
      show ?thesis
      proof (cases ws)
        case Nil
        with False Inr Suc.prems(1) p show ?thesis by simp
      next
        case (Cons wk ws')
        show ?thesis
        proof (cases wk)
          case (Fires acts)
          with Cons False Inr Suc.prems(1) p
          have "scheduler n m env' ws' (env_steps acts st2) = Some (err, st')" by simp
          from Suc.IH [OF this env [OF i2]] show ?thesis .
        next
          case Closed
          with Cons False Inr Suc.prems(1) p i2 show ?thesis by auto
        next
          case (Fails x)
          with Cons False Inr Suc.prems(1) p i2 show ?thesis by auto
        qed
      qed
    qed
  qed
qed

lemma truthy_only_append [simp]:
  "truthy_only (xs @ ys) = (truthy_only xs \<and> truthy_only ys)"
  by (auto simp: truthy_only_def)

lemma truthy_only_Nil [simp]: "truthy_only []"
  by (simp add: truthy_only_def)

lemma addBehavioralThread_effects:
  "addBehavioralThread n b pend = (r, pend', sp) \<Longrightarrow> sp = [] \<or> sp = [Spawn n]"
  by (auto simp: addBehavioralThread_def makeThread_def createEmptyThread_def
      startThreadOperationIfNecessary_def
      split: sum.splits iter.splits prod.splits exec.splits)

lemma addBehavioralThread_truthy_only:
  "addBehavioralThread n b pend = (r, pend', sp) \<Longrightarrow> truthy_only sp"
  using addBehavioralThread_effects [of n b pend r pend' sp] by (auto simp: truthy_only_def)

lemma env_step_truthy_only: "truthy_only (trace st) \<Longrightarrow> truthy_only (trace (env_step a st))"
proof (cases a)
  case (Finish i r)
  assume "truthy_only (trace st)"
  with Finish show ?thesis by simp
next
  case (Admit n b)
  assume t: "truthy_only (trace st)"
  obtain r p sp where h: "addBehavioralThread n b (pending st) = (r, p, sp)"
    by (cases "addBehavioralThread n b (pending st)") auto
  with Admit t addBehavioralThread_truthy_only [OF h] show ?thesis by simp
qed

lemma env_steps_truthy_only:
  "truthy_only (trace st) \<Longrightarrow> truthy_only (trace (env_steps acts st))"
  unfolding env_steps_def
  by (induction acts arbitrary: st) (auto simp: env_step_truthy_only)

lemma schedule_truthy_only: "schedule fin ts = (out, ts', tr) \<Longrightarrow> truthy_only tr"
  using schedule_effects [of fin ts out ts' tr] by (fastforce simp: truthy_only_def)

lemma admit_pending_trace [simp]: "trace (admit_pending st) = trace st"
  by (simp add: admit_pending_def)

lemma scheduler_truthy_only:
  assumes "scheduler n m env ws st = Some (err, st')" and "truthy_only (trace st)"
  shows "truthy_only (trace st')"
  using assms
proof (rule scheduler_invariant [where I = "\<lambda>s. truthy_only (trace s)"])
  fix acts and s :: system assume "truthy_only (trace s)"
  then show "truthy_only (trace (env_steps acts s))" by (rule env_steps_truthy_only)
next
  fix s :: system and fin o1 ts tr
  assume "truthy_only (trace s)" and "schedule fin (active s) = (o1, ts, tr)"
  then show "truthy_only (trace (s\<lparr>active := ts, trace := trace s @ tr\<rparr>))"
    using schedule_truthy_only by simp
next
  fix s :: system assume "truthy_only (trace s)"
  then show "truthy_only (trace (admit_pending s))" by simp
qed

lemma run_body_truthy_only:
  "run_body b pend tr = (r, pend', tr') \<Longrightarrow> truthy_only tr \<Longrightarrow> truthy_only tr'"
proof (induction b arbitrary: pend tr)
  case (BReturn v)
  then show ?case by simp
next
  case (BThrow x)
  then show ?case by simp
next
  case (BAdmit n b k)
  obtain r1 p1 sp where h: "addBehavioralThread n b pend = (r1, p1, sp)"
    by (cases "addBehavioralThread n b pend") auto
  have t: "truthy_only (tr @ sp)"
    using BAdmit.prems(2) addBehavioralThread_truthy_only [OF h] by simp
  show ?case
  proof (cases r1)
    case (Inl x)
    with BAdmit.prems(1) h t show ?thesis by auto
  next
    case (Inr u)
    with BAdmit.prems(1) h have "run_body k p1 (tr @ sp) = (r, pend', tr')" by simp
    from BAdmit.IH [OF this t] show ?thesis .
  qed
qed

lemma system_scheduler:
  assumes "behavioralThreadSystem n m env ws b = Some (Inr (v, err, st))"
  shows "\<exists>pend tr. run_body b [] [] = (Inr v, pend, tr)
     \<and> scheduler n m env ws \<lparr>active = [], pending = pend, trace = tr\<rparr> = Some (err, st)"
proof -
  obtain r pend tr where rb: "run_body b [] [] = (r, pend, tr)"
    by (cases "run_body b [] []") auto
  from assms rb show ?thesis
    by (cases r) (auto simp: behavioralThreadSystem_def split: option.splits)
qed

lemma system_truthy_only:
  assumes "behavioralThreadSystem n m env ws b = Some (Inr (v, err, st))"
  shows "truthy_only (trace st)"
proof -
  from system_scheduler [OF assms] obtain pend tr where
    rb: "run_body b [] [] = (Inr v, pend, tr)" and
    sc: "scheduler n m env ws \<lparr>active = [], pending = pend, trace = tr\<rparr> = Some (err, st)"
    by blast
  have "truthy_only tr" using run_body_truthy_only [OF rb] by simp
  with scheduler_truthy_only [OF sc] show ?thesis by simp
qed

section \<open>The loops of a turn, thread by thread\<close>


lemma harvest_no_calls:
  assumes "harvest ts = (out, ts', tr)"
  shows "nexts tr = []" and "filter is_call tr = []"
proof -
  have "\<forall>x\<in>set tr. (\<exists>k e. x = Throw k e) \<or> (\<exists>k. x = Spawn k)"
    using harvest_effects [OF assms] by blast
  then show "nexts tr = []" and "filter is_call tr = []"
    by (induction tr) auto
qed

lemma nexts_append [simp]: "nexts (xs @ ys) = nexts xs @ nexts ys"
  by (induction xs rule: nexts.induct) auto

lemma has_halt_append [simp]: "has_halt (xs @ ys) = (has_halt xs \<or> has_halt ys)"
  by (simp add: has_halt_def)

lemma has_halt_simps [simp]:
  "has_halt [] = False"
  "has_halt (Halt k # tr) = True"
  "has_halt (Next k e # tr) = has_halt tr"
  by (simp_all add: has_halt_def)

lemma cancel_calls [simp]:
  "nexts (snd (cancel t)) = []"
  "filter is_call (snd (cancel t)) = snd (cancel t)"
  "has_halt (snd (cancel t)) = (snd (cancel t) \<noteq> [])"
  by (simp_all add: cancel_effects has_halt_def split: exec.splits)

lemma start_calls [simp]:
  "nexts (snd (startThreadOperationIfNecessary t)) = []"
  "filter is_call (snd (startThreadOperationIfNecessary t)) = []"
  "has_halt (snd (startThreadOperationIfNecessary t)) = False"
  by (simp_all add: startThreadOperationIfNecessary_def has_halt_def split: exec.splits)




text \<open>The second loop of a turn that no exception leaves, thread by thread.\<close>

lemma advance_found:
  "advance e h fin ts = (None, ts', tr) \<Longrightarrow>
     nexts tr = map (\<lambda>t. (name t, e)) (filter (affected e) ts)
     \<and> filter is_call tr = concat (map (step_calls e) (found e h fin ts))
     \<and> ts' = concat (map (step_threads e) (found e h fin ts))"
proof (induction ts arbitrary: h fin ts' tr)
  case Nil
  then show ?case by simp
next
  case (Cons t ts)
  from advance_Cons_cases [OF Cons.prems] show ?case
  proof (elim disjE conjE exE)
    fix ts1
    assume na: "\<not> affected e t" and a: "advance e h (tl fin) ts = (None, ts1, tr)"
      and p: "ts' = visit h fin t # ts1"
    from Cons.IH [OF a] na p show ?thesis
      by (simp add: step_calls_def step_threads_def)
  next
    fix x assume "None = Some x"
    then show ?thesis by simp
  next
    fix tr1
    assume af: "affected e t" and g: "gnext (proc t) e = Return"
      and a: "advance e (h \<or> snd (cancel (visit h fin t)) \<noteq> []) (tl fin) ts = (None, ts', tr1)"
      and t: "tr = snd (cancel (visit h fin t)) @ Next (name t) e # tr1"
    from Cons.IH [OF a] af g t show ?thesis
      by (simp add: step_calls_def step_threads_def)
  next
    fix s p ts1 tr1
    assume af: "affected e t" and g: "gnext (proc t) e = Yield (s, p)"
      and a: "advance e (h \<or> snd (cancel (visit h fin t)) \<noteq> []) (tl fin) ts = (None, ts1, tr1)"
      and p: "ts' = fst (startThreadOperationIfNecessary
                          ((fst (cancel (visit h fin t)))\<lparr>sync := s, proc := p\<rparr>)) # ts1"
      and t: "tr = snd (cancel (visit h fin t)) @ Next (name t) e #
                snd (startThreadOperationIfNecessary
                       ((fst (cancel (visit h fin t)))\<lparr>sync := s, proc := p\<rparr>)) @ tr1"
    from Cons.IH [OF a] af g p t show ?thesis
      by (simp add: step_calls_def step_threads_def)
  qed
qed

lemma found_threads:
  "list_all2 (\<lambda>t' t. t' = t \<or> (\<exists>r. t' = finish_op r t)) (found e h fin ts) ts"
proof (induction ts arbitrary: h fin)
  case Nil
  show ?case by simp
next
  case (Cons t ts)
  from visit_cases [of h fin t] Cons show ?case by auto
qed

lemma found_first: "found e False fin (t # ts) ! 0 = t"
  by simp

section \<open>The scheduling loop\<close>

lemma harvest_no_work:
  "harvest ts = (Inr False, ts', tr) \<Longrightarrow>
     ts' = ts \<and> tr = [] \<and> (\<forall>t\<in>set ts. \<not> is_done (exec (sync t)))"
proof (induction ts arbitrary: ts' tr)
  case Nil
  then show ?case by simp
next
  case (Cons t ts)
  obtain o1 ts1 tr1 where h: "harvest ts = (o1, ts1, tr1)" by (cases "harvest ts") auto
  show ?case
  proof (cases "exec (sync t)")
    case (Done r)
    with Cons.prems h have False
      by (cases o1) (auto split: result.splits iter.splits prod.splits)
    then show ?thesis ..
  next
    case ENone
    with Cons.prems h Cons.IH [of ts1 tr1] show ?thesis by (auto simp: is_done_def)
  next
    case (Pending f)
    with Cons.prems h Cons.IH [of ts1 tr1] show ?thesis by (auto simp: is_done_def)
  next
    case (Running j)
    with Cons.prems h Cons.IH [of ts1 tr1] show ?thesis by (auto simp: is_done_def)
  qed
qed

lemma schedule_no_work:
  assumes "schedule fin ts = (Inr False, ts', tr)"
  shows "ts' = ts \<and> tr = [NoEventSelected] \<and> selectedEvent ts = None
     \<and> (\<forall>t\<in>set ts. \<not> is_done (exec (sync t)))"
proof -
  obtain o1 ts1 tr1 where h: "harvest ts = (o1, ts1, tr1)" by (cases "harvest ts") auto
  from assms h have o1: "o1 = Inr False" and s: "selectedEvent ts1 = None"
    and e: "ts' = ts1" "tr = tr1 @ [NoEventSelected]"
    by (auto simp: schedule_def split: sum.splits option.splits prod.splits)
  from harvest_no_work [of ts ts1 tr1] h o1 s e show ?thesis by simp
qed

lemma process_quiescent:
  "process m env st = Some (Inr u, st', env') \<Longrightarrow>
     selectedEvent (active st') = None \<and> (\<forall>t\<in>set (active st'). \<not> is_done (exec (sync t)))"
proof (induction m arbitrary: env st)
  case 0
  then show ?case by simp
next
  case (Suc m)
  define st1 where "st1 = env_steps (before_turn env) st"
  obtain o1 ts tr where s: "schedule (during_turn env) (active st1) = (o1, ts, tr)"
    by (cases "schedule (during_turn env) (active st1)") auto
  show ?case
  proof (cases o1)
    case (Inl x)
    with Suc.prems s show ?thesis by (simp add: st1_def Let_def)
  next
    case (Inr w)
    show ?thesis
    proof (cases w)
      case True
      with Inr Suc.prems s
      have "process m (tl env) (st1\<lparr>active := ts, trace := trace st1 @ tr\<rparr>) = Some (Inr u, st', env')"
        by (simp add: st1_def Let_def)
      from Suc.IH [OF this] show ?thesis .
    next
      case False
      with Inr Suc.prems s have st': "st' = st1\<lparr>active := ts, trace := trace st1 @ tr\<rparr>"
        by (simp add: st1_def Let_def)
      from schedule_no_work [of "during_turn env" "active st1" ts tr] s Inr False st'
      show ?thesis by simp
    qed
  qed
qed

lemma scheduler_quiescent:
  "scheduler n m env ws st = Some (None, st') \<Longrightarrow> Closed \<notin> set ws \<Longrightarrow>
     selectedEvent (active st') = None \<and> (\<forall>t\<in>set (active st'). \<not> is_done (exec (sync t)))
     \<and> pending st' = []"
proof (induction n arbitrary: env ws st)
  case 0
  then show ?case by simp
next
  case (Suc n)
  from Suc.prems(1) obtain o1 st2 env' where
    p: "process m env (admit_pending st) = Some (o1, st2, env')"
    by (auto split: option.splits)
  show ?case
  proof (cases o1)
    case (Inl x)
    with Suc.prems(1) p show ?thesis by simp
  next
    case (Inr u)
    show ?thesis
    proof (cases "pending st2 = []")
      case True
      with Inr Suc.prems(1) p have "st' = st2" by simp
      with process_quiescent [of m env "admit_pending st" u st2 env'] p Inr True
      show ?thesis by simp
    next
      case False
      show ?thesis
      proof (cases ws)
        case Nil
        with False Inr Suc.prems(1) p show ?thesis by simp
      next
        case (Cons wk ws')
        show ?thesis
        proof (cases wk)
          case (Fires acts)
          with Cons False Inr Suc.prems(1) p
          have "scheduler n m env' ws' (env_steps acts st2) = Some (None, st')" by simp
          moreover from Suc.prems(2) Cons have "Closed \<notin> set ws'" by simp
          ultimately show ?thesis by (rule Suc.IH)
        next
          case Closed
          with Cons Suc.prems(2) show ?thesis by simp
        next
          case (Fails x)
          with Cons False Inr Suc.prems(1) p show ?thesis by simp
        qed
      qed
    qed
  qed
qed






lemma admit_pending_idem [simp]: "admit_pending (admit_pending st) = admit_pending st"
  by (simp add: admit_pending_def)




section \<open>The resumptions of a turn\<close>

lemma throws_append [simp]: "throws (xs @ ys) = throws xs @ throws ys"
  by (induction xs rule: throws.induct) auto

lemma start_throws [simp]: "throws (snd (startThreadOperationIfNecessary t)) = []"
  by (simp add: startThreadOperationIfNecessary_def split: exec.splits)

lemma harvest_throws:
  "harvest ts = (Inr w, ts', tr) \<Longrightarrow> throws tr = concat (map thrown ts)"
proof (induction ts arbitrary: w ts' tr)
  case Nil
  then show ?case by simp
next
  case (Cons t ts)
  obtain o1 ts1 tr1 where h: "harvest ts = (o1, ts1, tr1)" by (cases "harvest ts") auto
  from Cons.prems h obtain w1 where o1: "o1 = Inr w1"
    by (cases o1) (auto split: exec.splits result.splits iter.splits prod.splits)
  from Cons.IH [of w1 ts1 tr1] h o1 have ih: "throws tr1 = concat (map thrown ts)" by simp
  from Cons.prems h o1 ih show ?case
    using start_throws
    by (auto simp: thrown_def [of t] split_beta split: exec.splits result.splits iter.splits)
qed

lemma advance_throws:
  assumes "advance e h fin ts = (out, ts', tr)"
  shows "throws tr = []"
proof -
  have "\<forall>x\<in>set tr. (\<exists>k. x = Next k e \<or> x = Halt k \<or> x = Spawn k)"
    using advance_effects [OF assms] by blast
  then show ?thesis by (induction tr) auto
qed

lemma has_halt_calls: "has_halt (filter is_call tr) = has_halt tr"
proof (induction tr)
  case Nil
  show ?case by simp
next
  case (Cons x tr)
  then show ?case by (cases x) (simp_all add: has_halt_def)
qed

lemma has_halt_step_calls:
  "has_halt (step_calls e t) = (affected e t \<and> snd (cancel t) \<noteq> [])"
  by (simp add: step_calls_def)

lemma found_no_halt:
  "\<not> has_halt (concat (map (step_calls e) (found e False fin ts))) \<Longrightarrow>
     found e False fin ts = ts"
proof (induction ts arbitrary: fin)
  case Nil
  show ?case by simp
next
  case (Cons t ts)
  from Cons.prems have f: "\<not> (affected e t \<and> snd (cancel t) \<noteq> [])"
    by (simp add: has_halt_step_calls)
  with Cons.prems have "\<not> has_halt (concat (map (step_calls e) (found e False (tl fin) ts)))"
    by simp
  from Cons.IH [OF this] f show ?case by (cases "affected e t") simp_all
qed

section \<open>Claims\<close>

text \<open>
  Claim C2, as amended. In the first loop of a turn, a thread \<open>t\<close> whose operation is
  \<open>done\<close> with \<open>ok v\<close>, reached without an exception from the threads before it, gets
  \<open>exec\<close> set to none and its \<open>post\<close> replaced by the one-element list \<open>[v]\<close>: the posts
  it had are dropped, not kept in front of \<open>v\<close>. Its \<open>wait\<close>, \<open>halt\<close>, generator, name
  and priority stay as they were, no call is made on its generator (it adds no effect
  between those of the threads before and after it), and \<open>didWork\<close> is set.
\<close>

theorem C2_harvest_ok_replaces_post:
  assumes "harvest pre = (Inr w, pre', trp)" and "exec (sync t) = Done (Ok v)"
  shows "harvest (pre @ t # suf) =
     (case harvest suf of (out, suf', trs) \<Rightarrow>
        (case out of Inl x \<Rightarrow> Inl x | Inr _ \<Rightarrow> Inr True,
         pre' @ t\<lparr>sync := (sync t)\<lparr>exec := ENone, post := [v]\<rparr>\<rparr> # suf', trp @ trs))"
  using assms by (simp add: harvest_append split: prod.splits sum.splits)

theorem C2_harvest_ok_replaces_post_witness:
  "harvest [producer] = (Inr False, [producer], []) \<and>
   exec (sync worker_done) = Done (Ok (EStr ''v'')) \<and>
   harvest ([producer] @ worker_done # [consumer]) =
     (Inr True,
      [producer, worker_done\<lparr>sync := (sync worker_done)\<lparr>exec := ENone, post := [EStr ''v'']\<rparr>\<rparr>,
       consumer], [])"
proof -
  have p: "harvest [producer] = (Inr False, [producer], [])"
    by (simp add: producer_def posting_def makeSyncSpec_def no_options_def)
  have d: "exec (sync worker_done) = Done (Ok (EStr ''v''))"
    by (simp add: worker_done_def)
  have c: "harvest [consumer] = (Inr False, [consumer], [])"
    by (simp add: consumer_def waiting_def makeSyncSpec_def no_options_def)
  show ?thesis
    using C2_harvest_ok_replaces_post [OF p d, of "[consumer]"] p d c by simp
qed

text \<open>
  Claim C2 as stated fails: the thread posted \<open>"e1"\<close>, and after the first loop its post
  list is \<open>["v"]\<close>, not \<open>["e1", "v"]\<close>.
\<close>

theorem C2_counterexample:
  "post (sync (hd (fst (snd (harvest [worker_done]))))) = [EStr ''v''] \<and>
   post (sync (hd (fst (snd (harvest [worker_done]))))) \<noteq> post (sync worker_done) @ [EStr ''v'']"
  by (simp add: worker_done_def posting_def makeSyncSpec_def no_options_def)

text \<open>
  Claim C5, as amended. For a behavior whose generator completes on its first \<open>next()\<close>
  without yielding, \<open>makeThread\<close> returns the sentinel thread: priority 0, the empty
  sync (no posts, \<open>wait\<close> and \<open>halt\<close> always false, no operation), a generator that is
  done. The admission function adds this thread to the pending set as it adds any
  other: the pending set grows by the sentinel, whether the admission is made by the
  body or by a task later on.
\<close>

theorem C5_sentinel_is_admitted:
  "makeThread \<lparr>opt_name = n, opt_prio = q, opt_behavior = Return\<rparr> = Inr (createEmptyThread n)
   \<and> prio (createEmptyThread n) = 0
   \<and> sync (createEmptyThread n) =
       \<lparr>post = [], wait = (\<lambda>_. False), halt = (\<lambda>_. False), exec = ENone\<rparr>
   \<and> gnext (proc (createEmptyThread n)) e = Return
   \<and> addBehavioralThread n Return pend = (Inr (), pend @ [createEmptyThread n], [])
   \<and> pending (env_step (Admit n Return) st) = pending st @ [createEmptyThread n]
   \<and> fst (snd (run_body (BAdmit n Return k) pend tr)) =
       fst (snd (run_body k (pend @ [createEmptyThread n]) tr))"
  by (simp add: makeThread_def createEmptyThread_def makeSyncSpec_def no_options_def
      empty_proc_def addBehavioralThread_def startThreadOperationIfNecessary_def)

text \<open>
  Claim C5 as stated fails: admitting such a behavior to an empty pending set leaves a
  pending set that is not empty.
\<close>

theorem C5_counterexample:
  "fst (snd (addBehavioralThread ''idle'' Return [])) \<noteq> []"
  by (simp add: makeThread_def createEmptyThread_def makeSyncSpec_def no_options_def
      empty_proc_def addBehavioralThread_def startThreadOperationIfNecessary_def)

text \<open>
  Claim C6, as amended. The candidate sequence is the posts, each list in its declared
  order, of the threads sorted by descending priority, threads of equal priority in
  their order of insertion (the sorted list is a permutation of the set, descending,
  and for every priority it has the threads of that priority in the order of the set).
  The selected event, when one exists, is the first candidate that no thread of the set
  halts: every candidate before it is halted by some thread, and no thread of the set
  halts it. If every candidate is halted, no event is selected. The set is the active
  set as the first loop of the turn has left it, with the sync specs the threads have
  then: the event a turn selects is the selected event of that set, so it is halted by
  no thread of it, and in particular by no thread that was active at the start of the
  turn with an operation not done, since the first loop leaves those as they were.
\<close>

theorem C6_selected_event:
  "mset (by_prio ts) = mset ts
   \<and> sorted_wrt (\<lambda>a b. prio b \<le> prio a) (by_prio ts)
   \<and> filter (\<lambda>t. prio t = p) (by_prio ts) = filter (\<lambda>t. prio t = p) ts
   \<and> (selectedEvent ts = Some e \<longrightarrow>
        (\<exists>pre suf. candidates ts = pre @ e # suf \<and> (\<forall>x\<in>set pre. halted ts x))
        \<and> (\<forall>t\<in>set ts. \<not> halt (sync t) e))
   \<and> ((\<forall>x\<in>set (candidates ts). halted ts x) \<longrightarrow> selectedEvent ts = None)
   \<and> (schedule fin ts0 = (out, ts', tr) \<and> Selected e \<in> set tr \<longrightarrow>
        (\<exists>w ts1 tr1. harvest ts0 = (Inr w, ts1, tr1) \<and> selectedEvent ts1 = Some e
           \<and> (\<forall>t\<in>set ts0. \<not> is_done (exec (sync t)) \<longrightarrow> t \<in> set ts1 \<and> \<not> halt (sync t) e)))"
proof (intro conjI impI)
  show "mset (by_prio ts) = mset ts" by (simp add: by_prio_def)
  show "sorted_wrt (\<lambda>a b. prio b \<le> prio a) (by_prio ts)" by (rule by_prio_sorted)
  show "filter (\<lambda>t. prio t = p) (by_prio ts) = filter (\<lambda>t. prio t = p) ts" by (rule by_prio_stable)
next
  assume s: "selectedEvent ts = Some e"
  from selectedEvent_first [OF s]
  show "\<exists>pre suf. candidates ts = pre @ e # suf \<and> (\<forall>x\<in>set pre. halted ts x)" by blast
  from selectedEvent_first [OF s] show "\<forall>t\<in>set ts. \<not> halt (sync t) e"
    by (auto simp: halted_iff)
next
  assume "\<forall>x\<in>set (candidates ts). halted ts x"
  then show "selectedEvent ts = None" by (rule selectedEvent_all_halted)
next
  assume a: "schedule fin ts0 = (out, ts', tr) \<and> Selected e \<in> set tr"
  then obtain w ts1 tr1 where h: "harvest ts0 = (Inr w, ts1, tr1)" and s: "selectedEvent ts1 = Some e"
    using schedule_selected [of fin ts0 out ts' tr e] by auto
  from selectedEvent_first [OF s] have nh: "\<forall>t\<in>set ts1. \<not> halt (sync t) e"
    by (auto simp: halted_iff)
  have "\<forall>t\<in>set ts0. \<not> is_done (exec (sync t)) \<longrightarrow> t \<in> set ts1 \<and> \<not> halt (sync t) e"
    using harvest_keeps [OF h] nh by blast
  with h s show "\<exists>w ts1 tr1. harvest ts0 = (Inr w, ts1, tr1) \<and> selectedEvent ts1 = Some e
           \<and> (\<forall>t\<in>set ts0. \<not> is_done (exec (sync t)) \<longrightarrow> t \<in> set ts1 \<and> \<not> halt (sync t) e)"
    by blast
qed

lemma selection_example:
  "by_prio [lo, hi, blk] = [hi, lo, blk]"
  "candidates [lo, hi, blk] = [EStr ''hi1'', EStr ''hi2'', EStr ''lo1'']"
  "halted [lo, hi, blk] (EStr ''hi1'')"
  "selectedEvent [lo, hi, blk] = Some (EStr ''hi2'')"
  "harvest [lo, hi, blk] = (Inr False, [lo, hi, blk], [])"
  "schedule [] [lo, hi, blk] =
     (Inr True, [lo, blk], [Selected (EStr ''hi2''), Next ''hi'' (EStr ''hi2'')])"
  by (simp_all add: turn_defs sync_defs lo_def hi_def blk_def)

lemma blocked_example:
  "candidates [producer, blocker] = [EStr ''e1'']"
  "halted [producer, blocker] (EStr ''e1'')"
  by (simp_all add: turn_defs sync_defs producer_def blocker_def)

theorem C6_selected_event_witness:
  "by_prio [lo, hi, blk] = [hi, lo, blk]
   \<and> candidates [lo, hi, blk] = [EStr ''hi1''] @ EStr ''hi2'' # [EStr ''lo1'']
   \<and> halted [lo, hi, blk] (EStr ''hi1'')
   \<and> selectedEvent [lo, hi, blk] = Some (EStr ''hi2'')
   \<and> \<not> halt (sync lo) (EStr ''hi2'') \<and> \<not> halt (sync hi) (EStr ''hi2'')
   \<and> \<not> halt (sync blk) (EStr ''hi2'')
   \<and> halted [producer, blocker] (EStr ''e1'') \<and> selectedEvent [producer, blocker] = None
   \<and> schedule [] [lo, hi, blk] =
       (Inr True, [lo, blk], [Selected (EStr ''hi2''), Next ''hi'' (EStr ''hi2'')])
   \<and> harvest [lo, hi, blk] = (Inr False, [lo, hi, blk], [])"
proof -
  have a: "\<forall>t\<in>set [lo, hi, blk]. \<not> halt (sync t) (EStr ''hi2'')"
    using C6_selected_event [where ts = "[lo, hi, blk]" and p = 1 and e = "EStr ''hi2''"
        and fin = "[]" and ?ts0.0 = "[lo, hi, blk]" and out = "Inr True" and ts' = "[lo, blk]"
        and tr = "[Selected (EStr ''hi2''), Next ''hi'' (EStr ''hi2'')]"]
      selection_example(4) by blast
  have b: "selectedEvent [producer, blocker] = None"
    using C6_selected_event [where ts = "[producer, blocker]" and p = 1 and e = "EStr ''e1''"
        and fin = "[]" and ?ts0.0 = "[]" and out = "Inr False" and ts' = "[]" and tr = "[]"]
      blocked_example by simp
  from a b selection_example(3) blocked_example(2) show ?thesis
    unfolding selection_example(1,2,4,5,6) blocked_example(1) by simp
qed

text \<open>
  Claim C6 as stated fails for the threads active at the start of the turn: the blocker
  is active then and halts \<open>"e1"\<close>; the first loop throws the error of its operation
  into it, its body ends, and the same turn selects \<open>"e1"\<close>.
\<close>

theorem C6_counterexample:
  "schedule [] [producer, blocker_failed] =
     (Inr True, [],
      [Throw ''blocker'' ''boom'', Selected (EStr ''e1''), Next ''producer'' (EStr ''e1'')])
   \<and> halt (sync blocker_failed) (EStr ''e1'')"
  by (simp add: turn_defs sync_defs producer_def blocker_failed_def catching_def)

text \<open>
  Claim C10. When the first candidate that no active thread halts is falsy, the turn is
  the turn with no candidate at all: the second loop runs for no thread (the thread set
  and the effects are those of the first loop, then the line "No event selected"), and
  \<open>didWork\<close> is what the first loop made it. No turn selects a falsy event or resumes a
  generator with one, and so no run of the system does.
\<close>

theorem C10_falsy_event_is_not_selected:
  "(harvest ts = (Inr w, ts1, tr1) \<and> find_event ts1 = Some e \<and> \<not> truthy e \<longrightarrow>
      schedule fin ts = (Inr w, ts1, tr1 @ [NoEventSelected]))
   \<and> (harvest ts = (Inr w, ts1, tr1) \<and> find_event ts1 = None \<longrightarrow>
      schedule fin ts = (Inr w, ts1, tr1 @ [NoEventSelected]))
   \<and> (schedule fin ts = (out, ts', tr) \<and> \<not> truthy e \<longrightarrow>
      Selected e \<notin> set tr \<and> Next k e \<notin> set tr)
   \<and> (behavioralThreadSystem n m env ws b = Some (Inr (v, err, st)) \<and> \<not> truthy e \<longrightarrow>
      Selected e \<notin> set (trace st) \<and> Next k e \<notin> set (trace st))"
proof (intro conjI impI)
  assume "harvest ts = (Inr w, ts1, tr1) \<and> find_event ts1 = Some e \<and> \<not> truthy e"
  then show "schedule fin ts = (Inr w, ts1, tr1 @ [NoEventSelected])"
    by (simp add: schedule_def selectedEvent_def)
next
  assume "harvest ts = (Inr w, ts1, tr1) \<and> find_event ts1 = None"
  then show "schedule fin ts = (Inr w, ts1, tr1 @ [NoEventSelected])"
    by (simp add: schedule_def selectedEvent_def)
next
  assume a: "schedule fin ts = (out, ts', tr) \<and> \<not> truthy e"
  then have t: "truthy_only tr" using schedule_truthy_only [of fin ts out ts' tr] by simp
  from a t show "Selected e \<notin> set tr" by (fastforce simp: truthy_only_def)
  from a t show "Next k e \<notin> set tr" by (fastforce simp: truthy_only_def)
next
  assume a: "behavioralThreadSystem n m env ws b = Some (Inr (v, err, st)) \<and> \<not> truthy e"
  then have t: "truthy_only (trace st)"
    using system_truthy_only [of n m env ws b v err st] by simp
  from a t show "Selected e \<notin> set (trace st)" by (fastforce simp: truthy_only_def)
  from a t show "Next k e \<notin> set (trace st)" by (fastforce simp: truthy_only_def)
qed

lemma quiet_example:
  "harvest [quiet] = (Inr False, [quiet], [])"
  "find_event [quiet] = Some (EStr '''')"
  "schedule [] [quiet] = (Inr False, [quiet], [NoEventSelected])"
  "harvest [consumer] = (Inr False, [consumer], [])"
  "find_event [consumer] = None"
  "schedule [] [consumer] = (Inr False, [consumer], [NoEventSelected])"
  by (simp_all add: turn_defs sync_defs quiet_def consumer_def)

lemma quiet_system:
  "behavioralThreadSystem (Suc 0) (Suc 0) [] []
     (BAdmit ''quiet'' (Yield (posting [EStr ''''], empty_proc)) (BReturn True)) =
   Some (Inr (True, None, \<lparr>active = [quiet], pending = [], trace = [NoEventSelected]\<rparr>))"
  by (simp add: loop_defs turn_defs sync_defs quiet_def)

theorem C10_falsy_event_is_not_selected_witness:
  "harvest [quiet] = (Inr False, [quiet], []) \<and> find_event [quiet] = Some (EStr '''')
   \<and> \<not> truthy (EStr '''')
   \<and> schedule [] [quiet] = (Inr False, [quiet], [] @ [NoEventSelected])
   \<and> harvest [consumer] = (Inr False, [consumer], []) \<and> find_event [consumer] = None
   \<and> schedule [] [consumer] = (Inr False, [consumer], [] @ [NoEventSelected])
   \<and> Selected (EStr '''') \<notin> set [NoEventSelected] \<and> Next ''quiet'' (EStr '''') \<notin> set [NoEventSelected]
   \<and> behavioralThreadSystem (Suc 0) (Suc 0) [] []
       (BAdmit ''quiet'' (Yield (posting [EStr ''''], empty_proc)) (BReturn True)) =
     Some (Inr (True, None, \<lparr>active = [quiet], pending = [], trace = [NoEventSelected]\<rparr>))"
  using C10_falsy_event_is_not_selected [where ts = "[quiet]" and w = False
      and ?ts1.0 = "[quiet]" and ?tr1.0 = "[]" and e = "EStr ''''" and fin = "[]"
      and out = "Inr False" and ts' = "[quiet]" and tr = "[NoEventSelected]"
      and k = "''quiet''" and n = "Suc 0" and m = "Suc 0" and env = "[]" and ws = "[]"
      and b = "BAdmit ''quiet'' (Yield (posting [EStr ''''], empty_proc)) (BReturn True)"
      and v = True and err = None
      and st = "\<lparr>active = [quiet], pending = [], trace = [NoEventSelected]\<rparr>"]
    C10_falsy_event_is_not_selected [where ts = "[consumer]" and w = False
      and ?ts1.0 = "[consumer]" and ?tr1.0 = "[]" and e = "EStr ''''" and fin = "[]"
      and out = "Inr False" and ts' = "[consumer]" and tr = "[NoEventSelected]"
      and k = "''quiet''" and n = "Suc 0" and m = "Suc 0" and env = "[]" and ws = "[]"
      and b = "BReturn True" and v = True and err = None
      and st = "\<lparr>active = [], pending = [], trace = [NoEventSelected]\<rparr>"]
  unfolding quiet_example quiet_system by simp

text \<open>
  Claim C7, as amended. In a turn that selects \<open>e\<close> and that no exception leaves, the
  threads are those of the active set as the first loop of the turn has left it, each
  with the sync spec it has then and in the order of the set, except that an operation
  still running then may be done by the time the second loop reaches its thread, which
  can only be once the loop has halted a task: in a turn that halts no task every
  thread is found as the first loop has left it. Of the threads as the loop finds
  them, each one that has \<open>e\<close> in its posts or whose \<open>wait\<close> accepts \<open>e\<close> is resumed by
  \<open>next(e)\<close> exactly once, and these are all the calls of \<open>next\<close> in the turn; its task
  is halted right before (and its \<open>exec\<close> set to none) if and only if its operation is
  running when the loop reaches it; the thread leaves the set if its body ends, and
  is in the set with the yielded sync spec, its pending operation started, otherwise.
  A thread with neither match is not resumed by \<open>next\<close>, no task of it is halted, and it
  stays as the loop has found it. Besides, the first loop resumes by \<open>throw\<close>, exactly
  once, each thread whose operation has failed by the start of the turn, so that one
  generator can be resumed twice in a turn: by \<open>throw\<close> and then by \<open>next(e)\<close>.
\<close>

theorem C7_affected_threads_advanced_once:
  assumes "schedule fin ts0 = (Inr w, ts', tr)" and "Selected e \<in> set tr"
  shows "(\<exists>wa tsa tra trb.
        harvest ts0 = (Inr wa, tsa, tra) \<and> selectedEvent tsa = Some e
        \<and> tr = tra @ Selected e # trb
        \<and> throws tr = concat (map thrown ts0)
        \<and> nexts tr = map (\<lambda>t. (name t, e)) (filter (affected e) tsa)
        \<and> filter is_call tr = concat (map (step_calls e) (found e False fin tsa))
        \<and> ts' = concat (map (step_threads e) (found e False fin tsa))
        \<and> list_all2 (\<lambda>t' t. t' = t \<or> (\<exists>r. t' = finish_op r t)) (found e False fin tsa) tsa
        \<and> (\<not> has_halt tr \<longrightarrow> found e False fin tsa = tsa))
     \<and> (is_running (exec (sync t)) \<longrightarrow>
          cancel t = (t\<lparr>sync := (sync t)\<lparr>exec := ENone\<rparr>\<rparr>, [Halt (name t)]))
     \<and> (\<not> is_running (exec (sync t)) \<longrightarrow> cancel t = (t, []))"
proof (intro conjI impI)
  from schedule_selected [OF assms] obtain wa tsa tra o2 trb where
    h: "harvest ts0 = (Inr wa, tsa, tra)" and s: "selectedEvent tsa = Some e" and
    a0: "advance e False fin tsa = (o2, ts', trb)" and tr: "tr = tra @ Selected e # trb" and
    out: "Inr w = (case o2 of Some x \<Rightarrow> Inl x | None \<Rightarrow> Inr True)"
    by blast
  from out have "o2 = None" by (cases o2) auto
  with a0 have a: "advance e False fin tsa = (None, ts', trb)" by simp
  note f = advance_found [OF a]
  note hc = harvest_no_calls [OF h]
  have c1: "throws tr = concat (map thrown ts0)"
    using harvest_throws [OF h] advance_throws [OF a] by (simp add: tr)
  have c2: "nexts tr = map (\<lambda>t. (name t, e)) (filter (affected e) tsa)"
    using f hc(1) by (simp add: tr)
  have c3: "filter is_call tr = concat (map (step_calls e) (found e False fin tsa))"
    using f hc(2) by (simp add: tr)
  have c4: "ts' = concat (map (step_threads e) (found e False fin tsa))"
    using f by simp
  have c5: "list_all2 (\<lambda>t' t. t' = t \<or> (\<exists>r. t' = finish_op r t)) (found e False fin tsa) tsa"
    by (rule found_threads)
  have c6: "\<not> has_halt tr \<longrightarrow> found e False fin tsa = tsa"
  proof
    assume "\<not> has_halt tr"
    then have "\<not> has_halt (filter is_call tr)" by (simp add: has_halt_calls)
    then show "found e False fin tsa = tsa" unfolding c3 by (rule found_no_halt)
  qed
  from h s tr c1 c2 c3 c4 c5 c6
  show "\<exists>wa tsa tra trb.
        harvest ts0 = (Inr wa, tsa, tra) \<and> selectedEvent tsa = Some e
        \<and> tr = tra @ Selected e # trb
        \<and> throws tr = concat (map thrown ts0)
        \<and> nexts tr = map (\<lambda>t. (name t, e)) (filter (affected e) tsa)
        \<and> filter is_call tr = concat (map (step_calls e) (found e False fin tsa))
        \<and> ts' = concat (map (step_threads e) (found e False fin tsa))
        \<and> list_all2 (\<lambda>t' t. t' = t \<or> (\<exists>r. t' = finish_op r t)) (found e False fin tsa) tsa
        \<and> (\<not> has_halt tr \<longrightarrow> found e False fin tsa = tsa)"
    by blast
next
  assume "is_running (exec (sync t))"
  then show "cancel t = (t\<lparr>sync := (sync t)\<lparr>exec := ENone\<rparr>\<rparr>, [Halt (name t)])"
    by (simp add: cancel_def is_running_def split: exec.splits)
next
  assume "\<not> is_running (exec (sync t))"
  then show "cancel t = (t, [])"
    by (simp add: cancel_def is_running_def split: exec.splits)
qed

lemma advanced_example:
  "schedule [None, Some (Ok (EStr ''done''))] [worker_one, worker_two, producer, lo] =
     (Inr True,
      [\<lparr>name = ''w1'', sync = posting [EStr ''ack''], proc = empty_proc, prio = 1\<rparr>, lo],
      [Selected (EStr ''e1''), Halt ''w1'', Next ''w1'' (EStr ''e1''),
       Next ''w2'' (EStr ''e1''), Next ''producer'' (EStr ''e1'')])"
  "harvest [worker_one, worker_two, producer, lo] =
     (Inr False, [worker_one, worker_two, producer, lo], [])"
  "found (EStr ''e1'') False [None, Some (Ok (EStr ''done''))]
       [worker_one, worker_two, producer, lo] =
     [worker_one, finish_op (Ok (EStr ''done'')) worker_two, producer, lo]"
  "schedule [] [consumer, consumer, producer, lo] =
     (Inr True, [lo],
      [Selected (EStr ''e1''), Next ''consumer'' (EStr ''e1''), Next ''consumer'' (EStr ''e1''),
       Next ''producer'' (EStr ''e1'')])"
  "harvest [consumer, consumer, producer, lo] = (Inr False, [consumer, consumer, producer, lo], [])"
  "\<not> has_halt [Selected (EStr ''e1''), Next ''consumer'' (EStr ''e1''),
       Next ''consumer'' (EStr ''e1''), Next ''producer'' (EStr ''e1'')]"
  "is_running (exec (sync worker_one))"
  "\<not> is_running (exec (sync producer))"
  by (simp_all add: turn_defs sync_defs has_halt_def is_running_def
      worker_one_def worker_two_def producer_def consumer_def lo_def)

theorem C7_affected_threads_advanced_once_witness:
  "schedule [None, Some (Ok (EStr ''done''))] [worker_one, worker_two, producer, lo] =
     (Inr True,
      [\<lparr>name = ''w1'', sync = posting [EStr ''ack''], proc = empty_proc, prio = 1\<rparr>, lo],
      [Selected (EStr ''e1''), Halt ''w1'', Next ''w1'' (EStr ''e1''),
       Next ''w2'' (EStr ''e1''), Next ''producer'' (EStr ''e1'')])
   \<and> nexts [Selected (EStr ''e1''), Halt ''w1'', Next ''w1'' (EStr ''e1''),
        Next ''w2'' (EStr ''e1''), Next ''producer'' (EStr ''e1'')] =
       map (\<lambda>t. (name t, EStr ''e1''))
         (filter (affected (EStr ''e1'')) [worker_one, worker_two, producer, lo])
   \<and> filter is_call [Selected (EStr ''e1''), Halt ''w1'', Next ''w1'' (EStr ''e1''),
        Next ''w2'' (EStr ''e1''), Next ''producer'' (EStr ''e1'')] =
       concat (map (step_calls (EStr ''e1''))
         [worker_one, finish_op (Ok (EStr ''done'')) worker_two, producer, lo])
   \<and> [\<lparr>name = ''w1'', sync = posting [EStr ''ack''], proc = empty_proc, prio = 1\<rparr>, lo] =
       concat (map (step_threads (EStr ''e1''))
         [worker_one, finish_op (Ok (EStr ''done'')) worker_two, producer, lo])
   \<and> schedule [] [consumer, consumer, producer, lo] =
     (Inr True, [lo],
      [Selected (EStr ''e1''), Next ''consumer'' (EStr ''e1''), Next ''consumer'' (EStr ''e1''),
       Next ''producer'' (EStr ''e1'')])
   \<and> nexts [Selected (EStr ''e1''), Next ''consumer'' (EStr ''e1''),
        Next ''consumer'' (EStr ''e1''), Next ''producer'' (EStr ''e1'')] =
       map (\<lambda>t. (name t, EStr ''e1''))
         (filter (affected (EStr ''e1'')) [consumer, consumer, producer, lo])
   \<and> found (EStr ''e1'') False [] [consumer, consumer, producer, lo] =
       [consumer, consumer, producer, lo]
   \<and> is_running (exec (sync worker_one))
   \<and> cancel worker_one =
       (worker_one\<lparr>sync := (sync worker_one)\<lparr>exec := ENone\<rparr>\<rparr>, [Halt (name worker_one)])
   \<and> \<not> is_running (exec (sync producer))
   \<and> cancel producer = (producer, [])"
proof -
  note ex = advanced_example
  let ?e = "EStr ''e1''"
  let ?fin = "[None, Some (Ok (EStr ''done''))]"
  let ?ts = "[worker_one, worker_two, producer, lo]"
  let ?tr = "[Selected ?e, Halt ''w1'', Next ''w1'' ?e, Next ''w2'' ?e, Next ''producer'' ?e]"
  let ?us = "[consumer, consumer, producer, lo]"
  let ?ur = "[Selected ?e, Next ''consumer'' ?e, Next ''consumer'' ?e, Next ''producer'' ?e]"
  have m: "Selected ?e \<in> set ?tr" by simp
  have n: "Selected ?e \<in> set ?ur" by simp
  note T = C7_affected_threads_advanced_once [OF ex(1) m]
  note U = C7_affected_threads_advanced_once [OF ex(4) n]
  from T [THEN conjunct1] obtain wa tsa tra where
    h: "harvest ?ts = (Inr wa, tsa, tra)" and
    a: "nexts ?tr = map (\<lambda>t. (name t, ?e)) (filter (affected ?e) tsa)" and
    b: "filter is_call ?tr = concat (map (step_calls ?e) (found ?e False ?fin tsa))" and
    c: "[\<lparr>name = ''w1'', sync = posting [EStr ''ack''], proc = empty_proc, prio = 1\<rparr>, lo] =
          concat (map (step_threads ?e) (found ?e False ?fin tsa))"
    by (elim exE conjE)
  from h have ta: "tsa = ?ts" unfolding ex(2) by simp
  from U [THEN conjunct1] obtain wb tsb trb where
    g: "harvest ?us = (Inr wb, tsb, trb)" and
    d: "nexts ?ur = map (\<lambda>t. (name t, ?e)) (filter (affected ?e) tsb)" and
    i: "\<not> has_halt ?ur \<longrightarrow> found ?e False [] tsb = tsb"
    by (elim exE conjE)
  from g have tb: "tsb = ?us" unfolding ex(5) by simp
  from i ex(6) have j: "found ?e False [] tsb = tsb" by (rule mp)
  have k: "cancel worker_one =
       (worker_one\<lparr>sync := (sync worker_one)\<lparr>exec := ENone\<rparr>\<rparr>, [Halt (name worker_one)])"
    by (rule T [THEN conjunct2, THEN conjunct1, THEN mp]) (rule ex(7))
  have l: "cancel producer = (producer, [])"
    by (rule T [THEN conjunct2, THEN conjunct2, THEN mp]) (rule ex(8))
  from ex(1) a [unfolded ta] b [unfolded ta ex(3)] c [unfolded ta ex(3)] ex(4) d [unfolded tb]
    j [unfolded tb] ex(7) k ex(8) l
  show ?thesis by (intro conjI)
qed

text \<open>
  Claim C7 as stated fails. First turn: the thrower and the consumer are active,
  \<open>"e1"\<close> is selected, the thrower's body throws when resumed, and the consumer, which
  waits for \<open>"e1"\<close>, is never resumed. Second turn: the worker has \<open>"e1"\<close> in its posts
  at the start of the turn, the first loop replaces its posts by the value of its
  operation, \<open>"e1"\<close> is selected, and the worker is not resumed. Third turn: the
  operation of a thread has failed, its body catches the error and waits for \<open>"e1"\<close>,
  which the producer posts; the generator is resumed twice in the turn, by \<open>throw\<close> and
  by \<open>next\<close>. Fourth turn: two threads wait for \<open>"e1"\<close> with their operations running at
  the start of the turn; the operation of the second finishes while the task of the
  first is halted, and the second is resumed with no halt of its task.
\<close>

theorem C7_counterexample:
  "schedule [] [thrower, consumer] =
     (Inl ''boom'', [thrower\<lparr>proc := empty_proc\<rparr>, consumer],
      [Selected (EStr ''e1''), Next ''thrower'' (EStr ''e1'')])
   \<and> wait (sync consumer) (EStr ''e1'')
   \<and> schedule [] [producer, worker_done] =
     (Inr True, [worker_done\<lparr>sync := (sync worker_done)\<lparr>exec := ENone, post := [EStr ''v'']\<rparr>\<rparr>],
      [Selected (EStr ''e1''), Next ''producer'' (EStr ''e1'')])
   \<and> post (sync worker_done) = [EStr ''e1'']
   \<and> schedule [] [producer, recoverer] =
     (Inr True, [],
      [Throw ''recoverer'' ''boom'', Selected (EStr ''e1''), Next ''producer'' (EStr ''e1''),
       Next ''recoverer'' (EStr ''e1'')])
   \<and> schedule [None, Some (Ok (EStr ''done''))] [worker_one, worker_two, producer] =
     (Inr True,
      [\<lparr>name = ''w1'', sync = posting [EStr ''ack''], proc = empty_proc, prio = 1\<rparr>],
      [Selected (EStr ''e1''), Halt ''w1'', Next ''w1'' (EStr ''e1''),
       Next ''w2'' (EStr ''e1''), Next ''producer'' (EStr ''e1'')])
   \<and> wait (sync worker_two) (EStr ''e1'')
   \<and> exec (sync worker_two) = Running 2"
  by (simp add: turn_defs sync_defs thrower_def throwing_def consumer_def producer_def
      worker_done_def recoverer_def worker_one_def worker_two_def)

text \<open>
  Claim C1 says that a call of \<open>behavioralThreadSystem\<close> does not return while the
  operation of an active thread is running. The code does return then. With the body
  of the example in the source file, which admits the worker and the timer and
  returns, the scheduling loop takes one turn: no operation is done, no event is
  requested, the turn does no work, the pending set is empty, and the loop breaks
  without waiting for a notification. The call returns the body's value with both
  threads in the active set and both operations running; neither the timer's
  \<open>"timeout"\<close> nor the worker's \<open>"completed"\<close> is ever seen by the scheduler. This is so
  whatever the notifications would have been, and for every bound on the number of
  turns and passes that allows one of each.
\<close>

theorem C1_returns_while_operations_run:
  "behavioralThreadSystem (Suc n) (Suc m) [] ws
     (BAdmit ''worker'' sleeper (BAdmit ''timer'' timer (BReturn ()))) =
   Some (Inr ((), None,
     \<lparr>active =
        [\<lparr>name = ''worker'',
          sync = \<lparr>post = [], wait = (\<lambda>e. e = EStr ''timeout''), halt = (\<lambda>_. False),
                  exec = Running 0\<rparr>,
          proc = empty_proc, prio = 1\<rparr>,
         \<lparr>name = ''timer'',
          sync = \<lparr>post = [], wait = (\<lambda>_. False), halt = (\<lambda>_. False), exec = Running 1\<rparr>,
          proc = empty_proc, prio = 1\<rparr>],
      pending = [], trace = [Spawn ''worker'', Spawn ''timer'', NoEventSelected]\<rparr>))"
  by (simp add: loop_defs turn_defs sync_defs sleeper_def timer_def)













end
